theory Spec2Isabelle
  imports Main
begin

section \<open>JavaScript values\<close>

text \<open>
  The library is dynamically typed: anything can be emitted, compared with \<open>===\<close> or
  handed to \<open>Observable.from\<close>. Values are the primitives plus objects. An object carries
  its identity (a reference number) and what it is: a plain object, an array with its
  elements, a \<open>Map\<close> with its entries in insertion order, a promise with its outcome, or
  a function. Numbers are the integers and \<open>NaN\<close>; other floating-point numbers play no
  part in the operators.
\<close>

datatype 'v promise = Fulfilled 'v | Rejected 'v | Pending

datatype 'v shape =
    Plain
  | Array "'v list"
  | MapOf "('v \<times> 'v) list"
  | Thenable "'v promise"
  | Function

datatype jsval =
    JUndefined
  | JNull
  | JBool bool
  | JNum int
  | JNaN
  | JStr string
  | JObj nat "jsval shape"

text \<open>Strict equality \<open>===\<close>: \<open>NaN\<close> equals nothing, objects are equal when they are the
  same object, primitives when they are the same value of the same type.\<close>

fun strict_eq :: "jsval \<Rightarrow> jsval \<Rightarrow> bool" where
  "strict_eq JNaN y = False"
| "strict_eq x JNaN = False"
| "strict_eq (JObj a k) (JObj b l) = (a = b)"
| "strict_eq x y = (x = y)"

text \<open>Truthiness, as tested by \<open>if (x)\<close> and \<open>x && ...\<close>.\<close>

fun truthy :: "jsval \<Rightarrow> bool" where
  "truthy JUndefined = False"
| "truthy JNull = False"
| "truthy (JBool b) = b"
| "truthy (JNum n) = (n \<noteq> 0)"
| "truthy JNaN = False"
| "truthy (JStr str) = (str \<noteq> [])"
| "truthy (JObj r k) = True"

section \<open>Subscriptions\<close>

text \<open>
  A subscriber's three callbacks are invoked for their effect. The subscribers of the
  test suite append what they receive to a result; \<open>calls\<close> is that record, one entry
  per invocation of \<open>nextFn\<close>, \<open>errorFn\<close> or \<open>completeFn\<close>.

  The variables that a \<open>subscribe\<close> function declares with \<open>let\<close> and that its inner
  callbacks capture (\<open>i\<close> in \<open>take\<close>, \<open>bool\<close> in \<open>first\<close> and \<open>skip\<close>, \<open>isDone\<close> in
  \<open>concat\<close>) live in a store: each execution of the \<open>let\<close> takes the next unused
  address \<open>free\<close>, and the callback reads and writes that address.
\<close>

datatype event = Next jsval | Error jsval | Complete

record state =
  flags :: "nat \<Rightarrow> bool"
  counters :: "nat \<Rightarrow> int"
  free :: nat
  calls :: "event list"

type_synonym callback = "state \<Rightarrow> state"

text \<open>An observable is an object with one method, \<open>subscribe(nextFn, errorFn, completeFn)\<close>.
  Callbacks are taken to be present and to return normally.\<close>

record observable =
  subscribe :: "(jsval \<Rightarrow> callback) \<Rightarrow> (jsval \<Rightarrow> callback) \<Rightarrow> callback \<Rightarrow> callback"

text \<open>\<open>let b = v\<close> for a captured boolean, and the assignment \<open>b = v\<close>.\<close>

definition let_flag :: "bool \<Rightarrow> state \<Rightarrow> nat \<times> state" where
  "let_flag v s = (free s, s\<lparr>flags := (flags s)(free s := v), free := Suc (free s)\<rparr>)"

definition set_flag :: "nat \<Rightarrow> bool \<Rightarrow> callback" where
  "set_flag a v s = s\<lparr>flags := (flags s)(a := v)\<rparr>"

text \<open>\<open>let i = v\<close> for a captured number, and the pre-increment \<open>++i\<close>.\<close>

definition let_counter :: "int \<Rightarrow> state \<Rightarrow> nat \<times> state" where
  "let_counter v s = (free s, s\<lparr>counters := (counters s)(free s := v), free := Suc (free s)\<rparr>)"

definition incr :: "nat \<Rightarrow> callback" where
  "incr a s = s\<lparr>counters := (counters s)(a := counters s a + 1)\<rparr>"

section \<open>Creation operators\<close>

text \<open>\<open>Observable.of(...args)\<close>: \<open>args.forEach(x => nextFn(x))\<close>, then \<open>completeFn()\<close>.\<close>

definition of_obs :: "jsval list \<Rightarrow> observable" where
  "of_obs args = \<lparr>subscribe = (\<lambda>nextFn errorFn completeFn s.
     completeFn (fold (\<lambda>x. nextFn x) args s))\<rparr>"

text \<open>\<open>Observable.fromArray(args = [])\<close>: the argument is an array or absent.\<close>

definition fromArray :: "jsval list option \<Rightarrow> observable" where
  "fromArray args = of_obs (case args of None \<Rightarrow> [] | Some xs \<Rightarrow> xs)"

text \<open>
  Promises are the platform's, not the library's. \<open>p.then(f)\<close> with the one handler \<open>f\<close>
  runs \<open>f\<close> on the value once \<open>p\<close> is fulfilled and yields a promise fulfilled with what
  \<open>f\<close> returns; the callbacks of a subscriber are taken to return normally and not to
  return a thenable, so that promise is fulfilled (with \<open>undefined\<close>, the value being of
  no use to the second handler of \<open>fromPromise\<close>). When \<open>p\<close> is rejected, or never settles,
  \<open>f\<close> is not run and the new promise is rejected with the same reason, or never
  settles. The handlers run later than the call of \<open>then\<close>; \<open>then_promise\<close> gives the
  promise returned together with the effect of the handler once it has run.
\<close>

definition then_promise :: "jsval promise \<Rightarrow> (jsval \<Rightarrow> callback) \<Rightarrow> state \<Rightarrow> jsval promise \<times> state" where
  "then_promise p onFulfilled s =
     (case p of
        Fulfilled v \<Rightarrow> (Fulfilled JUndefined, onFulfilled v s)
      | Rejected e \<Rightarrow> (Rejected e, s)
      | Pending \<Rightarrow> (Pending, s))"

text \<open>\<open>Observable.fromPromise(promise)\<close>:
  \<open>promise.then(val => nextFn(val)).then(() => completeFn())\<close>.\<close>

definition fromPromise :: "jsval promise \<Rightarrow> observable" where
  "fromPromise promise = \<lparr>subscribe = (\<lambda>nextFn errorFn completeFn s.
     (let (p1, s1) = then_promise promise (\<lambda>val. nextFn val) s;
          (p2, s2) = then_promise p1 (\<lambda>_. completeFn) s1
      in s2))\<rparr>"

text \<open>The tests of \<open>Observable.from\<close>, in the order of the source.
  \<open>typeof input.then === 'function'\<close> holds of promises only.\<close>

fun then_method :: "jsval \<Rightarrow> jsval promise option" where
  "then_method (JObj r (Thenable p)) = Some p"
| "then_method x = None"

fun isArray :: "jsval \<Rightarrow> jsval list option" where
  "isArray (JObj r (Array xs)) = Some xs"
| "isArray x = None"

fun isString :: "jsval \<Rightarrow> string option" where
  "isString (JStr str) = Some str"
| "isString x = None"

fun isMap :: "jsval \<Rightarrow> (jsval \<times> jsval) list option" where
  "isMap (JObj r (MapOf kvs)) = Some kvs"
| "isMap x = None"

text \<open>\<open>input.split('')\<close>: the one-character strings of \<open>input\<close>, in order.\<close>

definition split_chars :: "string \<Rightarrow> jsval list" where
  "split_chars str = map (\<lambda>c. JStr [c]) str"

text \<open>\<open>input.entries()\<close>, spread: one new two-element array \<open>[key, value]\<close> per entry, in
  insertion order. The new arrays take the object identities from \<open>fresh\<close> on.\<close>

fun entries :: "nat \<Rightarrow> (jsval \<times> jsval) list \<Rightarrow> jsval list" where
  "entries fresh [] = []"
| "entries fresh ((k, v) # kvs) = JObj fresh (Array [k, v]) # entries (Suc fresh) kvs"

text \<open>\<open>Observable.from(input)\<close>; \<open>None\<close> is the \<open>undefined\<close> that falls out of the end of
  the function. \<open>fresh\<close> is the first object identity not yet in use.\<close>

definition from_obs :: "nat \<Rightarrow> jsval \<Rightarrow> observable option" where
  "from_obs fresh input =
     (case (if truthy input then then_method input else None) of
        Some p \<Rightarrow> Some (fromPromise p)
      | None \<Rightarrow>
     (case isArray input of
        Some xs \<Rightarrow> Some (of_obs xs)
      | None \<Rightarrow>
     (case (if truthy input then isString input else None) of
        Some str \<Rightarrow> Some (of_obs (split_chars str))
      | None \<Rightarrow>
     (case (if truthy input then isMap input else None) of
        Some kvs \<Rightarrow> Some (of_obs (entries fresh kvs))
      | None \<Rightarrow> None))))"

section \<open>Transformation, filtering and combination operators\<close>


definition filter_next :: "(jsval \<Rightarrow> jsval) \<Rightarrow> (jsval \<Rightarrow> callback) \<Rightarrow> jsval \<Rightarrow> callback" where
  "filter_next predicate nextFn val s = (if truthy (predicate val) then nextFn val s else s)"

definition filter_obs :: "(jsval \<Rightarrow> jsval) \<Rightarrow> observable option \<Rightarrow> observable \<Rightarrow> observable" where
  "filter_obs predicate thisArgs this = \<lparr>subscribe = (\<lambda>nextFn errorFn completeFn s.
     (case thisArgs of
        Some src \<Rightarrow> subscribe src (filter_next predicate nextFn) errorFn completeFn s
      | None \<Rightarrow> subscribe this (filter_next predicate nextFn) errorFn completeFn s))\<rparr>"



text \<open>
  \<open>concat(...observables)\<close>. The receiver is \<open>None\<close> in the static call
  \<open>Observable.concat(...)\<close>, where \<open>this\<close> is the class and \<open>this.subscribe\<close> is not a
  function. \<open>callback\<close> declares \<open>isDone\<close> each time it runs; the loop subscribes to an
  observable only while \<open>isDone\<close> holds. The final \<open>completeFn()\<close> follows the
  \<open>if\<close>/\<open>else\<close>.
\<close>

definition concat_callback ::
  "observable list \<Rightarrow> (jsval \<Rightarrow> callback) \<Rightarrow> (jsval \<Rightarrow> callback) \<Rightarrow> callback" where
  "concat_callback observables nextFn errorFn s =
     (let (isDone, s0) = let_flag True s
      in fold (\<lambda>obs s.
           if flags s isDone
           then subscribe obs (\<lambda>v. nextFn v) errorFn (set_flag isDone True)
                  (set_flag isDone False s)
           else s) observables s0)"

definition concat_obs :: "observable option \<Rightarrow> observable list \<Rightarrow> observable" where
  "concat_obs this observables = \<lparr>subscribe = (\<lambda>nextFn errorFn completeFn s.
     completeFn
       (case this of
          Some src \<Rightarrow>
            subscribe src (\<lambda>val. nextFn val) errorFn
              (concat_callback observables nextFn errorFn) s
        | None \<Rightarrow> concat_callback observables nextFn errorFn s))\<rparr>"

text \<open>\<open>take(count)\<close>: \<open>let i = 0\<close> in \<open>subscribe\<close>; the source is given the callback
  \<open>val => { if (++i <= count) nextFn(val) }\<close>.\<close>

definition take_next :: "nat \<Rightarrow> int \<Rightarrow> (jsval \<Rightarrow> callback) \<Rightarrow> jsval \<Rightarrow> callback" where
  "take_next i count nextFn val s =
     (let s' = incr i s
      in if counters s' i \<le> count then nextFn val s' else s')"

definition take_obs :: "int \<Rightarrow> observable \<Rightarrow> observable" where
  "take_obs count this = \<lparr>subscribe = (\<lambda>nextFn errorFn completeFn s.
     (let (i, s0) = let_counter 0 s
      in subscribe this (take_next i count nextFn) errorFn completeFn s0))\<rparr>"

text \<open>The argument of \<open>first\<close>: a function, \<open>undefined\<close> (no argument), or anything else.
  \<open>let bool = true\<close> in \<open>subscribe\<close>; the source is given the callback
  \<open>val => { if (bool) { if ((typeof predicate === 'function') && predicate(val)) { bool = false;
  nextFn(val) } else if (predicate === undefined) { bool = false; nextFn(val) } } }\<close>.\<close>

datatype predicate_arg = PredFunction "jsval \<Rightarrow> jsval" | PredUndefined | PredOther

definition first_next ::
  "nat \<Rightarrow> predicate_arg \<Rightarrow> (jsval \<Rightarrow> callback) \<Rightarrow> jsval \<Rightarrow> callback" where
  "first_next bool predicate nextFn val s =
     (if flags s bool then
        (case predicate of
           PredFunction p \<Rightarrow>
             if truthy (p val) then nextFn val (set_flag bool False s) else s
         | PredUndefined \<Rightarrow> nextFn val (set_flag bool False s)
         | PredOther \<Rightarrow> s)
      else s)"

definition first :: "predicate_arg \<Rightarrow> observable \<Rightarrow> observable" where
  "first predicate this = \<lparr>subscribe = (\<lambda>nextFn errorFn completeFn s.
     (let (bool, s0) = let_flag True s
      in subscribe this (first_next bool predicate nextFn) errorFn completeFn s0))\<rparr>"

text \<open>\<open>skip(the)\<close>: \<open>let bool = false\<close> in \<open>subscribe\<close>; the source is given the callback
  \<open>val => { if (bool) { nextFn(val) } else { if (val === the) { bool = true } } }\<close>.\<close>

definition skip_next :: "nat \<Rightarrow> jsval \<Rightarrow> (jsval \<Rightarrow> callback) \<Rightarrow> jsval \<Rightarrow> callback" where
  "skip_next bool the_val nextFn val s =
     (if flags s bool then nextFn val s
      else if strict_eq val the_val then set_flag bool True s else s)"

definition skip :: "jsval \<Rightarrow> observable \<Rightarrow> observable" where
  "skip the_val this = \<lparr>subscribe = (\<lambda>nextFn errorFn completeFn s.
     (let (bool, s0) = let_flag False s
      in subscribe this (skip_next bool the_val nextFn) errorFn completeFn s0))\<rparr>"

section \<open>Subscribers and producers\<close>

text \<open>The recording subscriber: each callback appends its invocation to \<open>calls\<close>.\<close>

definition rec_next :: "jsval \<Rightarrow> callback" where
  "rec_next v s = s\<lparr>calls := calls s @ [Next v]\<rparr>"

definition rec_error :: "jsval \<Rightarrow> callback" where
  "rec_error e s = s\<lparr>calls := calls s @ [Error e]\<rparr>"

definition rec_complete :: callback where
  "rec_complete s = s\<lparr>calls := calls s @ [Complete]\<rparr>"

text \<open>The record after a subscription made in state \<open>s\<close> with the recording subscriber.\<close>

definition run :: "observable \<Rightarrow> state \<Rightarrow> event list" where
  "run obs s = calls (subscribe obs rec_next rec_error rec_complete s)"

text \<open>An arbitrary synchronous producer: on \<open>subscribe\<close> it invokes the observer's
  callbacks one after the other as the list \<open>evs\<close> says.\<close>

fun emit :: "(jsval \<Rightarrow> callback) \<Rightarrow> (jsval \<Rightarrow> callback) \<Rightarrow> callback \<Rightarrow> event \<Rightarrow> callback" where
  "emit nextFn errorFn completeFn (Next v) = nextFn v"
| "emit nextFn errorFn completeFn (Error e) = errorFn e"
| "emit nextFn errorFn completeFn Complete = completeFn"

definition producer :: "event list \<Rightarrow> observable" where
  "producer evs = \<lparr>subscribe = (\<lambda>nextFn errorFn completeFn s.
     fold (emit nextFn errorFn completeFn) evs s)\<rparr>"

text \<open>A state with nothing declared and nothing recorded.\<close>

definition start :: state where
  "start = \<lparr>flags = (\<lambda>a. False), counters = (\<lambda>a. 0), free = 0, calls = []\<rparr>"

section \<open>What the operators are specified to forward\<close>

text \<open>
  The definitions of this section follow the specification, not the code: they say, for
  a sequence of upstream calls, which calls an operator hands on.
\<close>

fun is_next :: "event \<Rightarrow> bool" where
  "is_next (Next v) = True"
| "is_next e = False"

fun next_values :: "event list \<Rightarrow> jsval list" where
  "next_values [] = []"
| "next_values (Next v # evs) = v # next_values evs"
| "next_values (e # evs) = next_values evs"


definition passes :: "(jsval \<Rightarrow> jsval) \<Rightarrow> event \<Rightarrow> bool" where
  "passes p e = (case e of Next v \<Rightarrow> truthy (p v) | Error err \<Rightarrow> True | Complete \<Rightarrow> True)"

text \<open>
  \<open>forwarded keep evs\<close>: the calls of \<open>evs\<close>, in order, each one kept when \<open>keep\<close> holds
  of the upstream history up to and including it.
\<close>

definition forwarded :: "(event list \<Rightarrow> bool) \<Rightarrow> event list \<Rightarrow> event list" where
  "forwarded keep evs =
     concat (map (\<lambda>k. if keep (take (Suc k) evs) then [evs ! k] else []) [0..<length evs])"

text \<open>\<open>take(count)\<close>: a value is forwarded when its 1-based position among the values is
  at most \<open>count\<close>; \<open>error\<close> and \<open>complete\<close> always pass.\<close>

definition within_count :: "int \<Rightarrow> event list \<Rightarrow> bool" where
  "within_count count h =
     (case last h of Next v \<Rightarrow> int (length (next_values h)) \<le> count | _ \<Rightarrow> True)"

text \<open>\<open>skip(the)\<close>: a value is forwarded when an earlier value is strictly equal to
  \<open>the\<close>; \<open>error\<close> and \<open>complete\<close> always pass.\<close>

definition after_match :: "jsval \<Rightarrow> event list \<Rightarrow> bool" where
  "after_match the_val h =
     (case last h of
        Next v \<Rightarrow> list_ex (\<lambda>w. strict_eq w the_val) (next_values (butlast h))
      | _ \<Rightarrow> True)"

text \<open>\<open>first(predicate)\<close>: a value is forwarded when it is accepted and no earlier value
  is; with no predicate every value is accepted, with a predicate that is not a function
  none is. \<open>error\<close> and \<open>complete\<close> always pass.\<close>

fun accepts :: "predicate_arg \<Rightarrow> jsval \<Rightarrow> bool" where
  "accepts (PredFunction p) v = truthy (p v)"
| "accepts PredUndefined v = True"
| "accepts PredOther v = False"

definition first_accepted :: "predicate_arg \<Rightarrow> event list \<Rightarrow> bool" where
  "first_accepted predicate h =
     (case last h of
        Next v \<Rightarrow> accepts predicate v \<and> \<not> list_ex (accepts predicate) (next_values (butlast h))
      | _ \<Rightarrow> True)"

text \<open>The observables built from the synchronous creation operators and the filtering
  operators.\<close>

inductive built :: "observable \<Rightarrow> bool" where
  of_values: "built (of_obs args)"
| from_array: "built (fromArray args)"
| from_input: "from_obs fresh input = Some obs \<Longrightarrow> then_method input = None \<Longrightarrow> built obs"
| filter_method: "built src \<Longrightarrow> built (filter_obs predicate None src)"
| filter_static: "built src \<Longrightarrow> built (filter_obs predicate (Some src) this)"
| take: "built src \<Longrightarrow> built (take_obs count src)"
| first: "built src \<Longrightarrow> built (first predicate src)"
| skip: "built src \<Longrightarrow> built (skip the_val src)"

section \<open>Synchronous observables\<close>

text \<open>
  \<open>sim n s t\<close>: the states \<open>s\<close> and \<open>t\<close> agree on the record of calls and on every
  variable declared before address \<open>n\<close>, and both have declared at least \<open>n\<close> variables.
\<close>

definition sim :: "nat \<Rightarrow> state \<Rightarrow> state \<Rightarrow> bool" where
  "sim n s t \<longleftrightarrow>
     calls s = calls t
     \<and> (\<forall>a. a < n \<longrightarrow> flags s a = flags t a \<and> counters s a = counters t a)
     \<and> n \<le> free s \<and> n \<le> free t"

text \<open>
  A callback is local to \<open>n\<close> when it is a closure over variables declared before \<open>n\<close>
  only, as lexical scoping makes every callback that exists when the \<open>n\<close>-th
  variable is declared: run in a state with at least \<open>n\<close> variables, it leaves the
  variables from \<open>n\<close> on untouched (\<open>keeps\<close>), declares its own above those that exist,
  and its effect below \<open>n\<close> and on the record depends only on what is below \<open>n\<close> and on
  the record.
\<close>

definition keeps :: "nat \<Rightarrow> callback \<Rightarrow> bool" where
  "keeps n f \<longleftrightarrow>
     (\<forall>s. n \<le> free s \<longrightarrow>
        free s \<le> free (f s)
        \<and> (\<forall>a. n \<le> a \<and> a < free s \<longrightarrow>
              flags (f s) a = flags s a \<and> counters (f s) a = counters s a))"

definition local_to :: "nat \<Rightarrow> callback \<Rightarrow> bool" where
  "local_to n f \<longleftrightarrow> keeps n f \<and> (\<forall>s t. sim n s t \<longrightarrow> sim n (f s) (f t))"

text \<open>
  \<open>behaves_as obs evs\<close>: \<open>obs\<close> is synchronous and its subscription is the sequence of
  calls \<open>evs\<close>. Whatever callbacks it is subscribed with (callbacks that cannot reach
  the variables \<open>subscribe\<close> is about to declare), the subscription has the effect of
  invoking them as \<open>evs\<close> says, up to the variables that the subscription declared
  for itself.
\<close>

definition behaves_as :: "observable \<Rightarrow> event list \<Rightarrow> bool" where
  "behaves_as obs evs \<longleftrightarrow>
     (\<forall>nextFn errorFn completeFn s.
        (\<forall>v. local_to (free s) (nextFn v)) \<and> (\<forall>e. local_to (free s) (errorFn e))
        \<and> local_to (free s) completeFn
        \<longrightarrow> sim (free s) (subscribe obs nextFn errorFn completeFn s)
              (fold (emit nextFn errorFn completeFn) evs s))"




fun concat_loop :: "bool \<Rightarrow> event list list \<Rightarrow> event list" where
  "concat_loop isDone [] = []"
| "concat_loop isDone (evs # rest) =
     (if isDone then filter (\<lambda>e. e \<noteq> Complete) evs @ concat_loop (Complete \<in> set evs) rest
      else concat_loop isDone rest)"

section \<open>Recording subscribers and scripted producers\<close>

lemma fold_rec_next: "calls (fold (\<lambda>x. rec_next x) vs s) = calls s @ map Next vs"
  by (induction vs arbitrary: s) (simp_all add: rec_next_def)

lemma rec_calls [simp]:
  "calls (rec_next v s) = calls s @ [Next v]"
  "calls (rec_error e s) = calls s @ [Error e]"
  "calls (rec_complete s) = calls s @ [Complete]"
  by (simp_all add: rec_next_def rec_error_def rec_complete_def)

lemma entries_eq: "entries fresh kvs = map (\<lambda>(i, (k, v)). JObj i (Array [k, v])) (enumerate fresh kvs)"
  by (induction kvs arbitrary: fresh) auto


lemma filter_next_simps:
  "truthy (p v) \<Longrightarrow> filter_next p nextFn v s = nextFn v s"
  "\<not> truthy (p v) \<Longrightarrow> filter_next p nextFn v s = s"
  by (simp_all add: filter_next_def)

lemma passes_simps [simp]:
  "passes p (Next v) = truthy (p v)" "passes p (Error e) = True" "passes p Complete = True"
  by (simp_all add: passes_def)

lemma fold_filter_next:
  "fold (emit (filter_next p nextFn) errorFn completeFn) evs s
   = fold (emit nextFn errorFn completeFn) (filter (passes p) evs) s"
proof (induction evs arbitrary: s)
  case Nil
  show ?case by simp
next
  case (Cons e evs)
  show ?case
  proof (cases e)
    case (Next v)
    then show ?thesis
      by (cases "truthy (p v)") (simp_all add: Cons.IH filter_next_simps)
  qed (simp_all add: Cons.IH)
qed

lemma fold_emit_rec:
  "calls (fold (emit rec_next rec_error rec_complete) evs s) = calls s @ evs"
proof (induction evs arbitrary: s)
  case Nil
  show ?case by simp
next
  case (Cons e evs)
  show ?case
    by (cases e) (simp_all add: Cons.IH)
qed


section \<open>Local callbacks\<close>

lemma sim_refl: "n \<le> free (s::state) \<Longrightarrow> sim n s s"
  by (simp add: sim_def)

lemma sim_sym: "sim n s t \<Longrightarrow> sim n t s"
  by (simp add: sim_def)

lemma sim_trans: "sim n s t \<Longrightarrow> sim n t u \<Longrightarrow> sim n s u"
  by (simp add: sim_def)

lemma sim_mono: "sim n s t \<Longrightarrow> m \<le> n \<Longrightarrow> sim m s t"
  by (simp add: sim_def)

lemma sim_calls: "sim n s t \<Longrightarrow> calls s = calls t"
  by (simp add: sim_def)

lemma local_to_sim: "local_to n f \<Longrightarrow> sim n s t \<Longrightarrow> sim n (f s) (f t)"
  by (simp add: local_to_def)

lemma local_to_free: "local_to n f \<Longrightarrow> n \<le> free (s::state) \<Longrightarrow> free s \<le> free (f s)"
  by (simp add: local_to_def keeps_def)

lemma local_to_flags:
  "local_to n f \<Longrightarrow> n \<le> a \<Longrightarrow> a < free (s::state) \<Longrightarrow> flags (f s) a = flags s a"
  by (simp add: local_to_def keeps_def)

lemma local_to_counters:
  "local_to n f \<Longrightarrow> n \<le> a \<Longrightarrow> a < free (s::state) \<Longrightarrow> counters (f s) a = counters s a"
  by (simp add: local_to_def keeps_def)

lemma local_to_mono:
  assumes f: "local_to n f" and nm: "n \<le> m"
  shows "local_to m f"
proof -
  have k: "keeps m f"
    using f nm by (auto simp: local_to_def keeps_def)
  have "sim m (f s) (f t)" if st: "sim m s t" for s t
  proof -
    from st nm have low: "sim n (f s) (f t)"
      using f by (auto intro: local_to_sim sim_mono)
    from st have ms: "m \<le> free s" and mt: "m \<le> free t"
      by (simp_all add: sim_def)
    have "flags (f s) a = flags (f t) a \<and> counters (f s) a = counters (f t) a" if am: "a < m" for a
    proof (cases "a < n")
      case True
      with low show ?thesis by (simp add: sim_def)
    next
      case False
      then have na: "n \<le> a" by simp
      have as: "a < free s" and at: "a < free t"
        using am ms mt by simp_all
      have "flags (f s) a = flags s a" "counters (f s) a = counters s a"
        by (rule local_to_flags [OF f na as], rule local_to_counters [OF f na as])
      moreover have "flags (f t) a = flags t a" "counters (f t) a = counters t a"
        by (rule local_to_flags [OF f na at], rule local_to_counters [OF f na at])
      moreover have "flags s a = flags t a" "counters s a = counters t a"
        using st am by (simp_all add: sim_def)
      ultimately show ?thesis by simp
    qed
    moreover have "m \<le> free (f s)" "m \<le> free (f t)"
      using local_to_free [OF f, of s] local_to_free [OF f, of t] ms mt nm by simp_all
    ultimately show ?thesis
      using low by (simp add: sim_def)
  qed
  with k show ?thesis by (simp add: local_to_def)
qed

lemma local_to_rec [simp]:
  "local_to n (rec_next v)" "local_to n (rec_error e)" "local_to n rec_complete"
  by (simp_all add: local_to_def keeps_def sim_def rec_next_def rec_error_def rec_complete_def)

lemma local_to_emit:
  "(\<And>v. local_to n (nextFn v)) \<Longrightarrow> (\<And>e. local_to n (errorFn e)) \<Longrightarrow> local_to n completeFn
   \<Longrightarrow> local_to n (emit nextFn errorFn completeFn e)"
  by (cases e) simp_all

lemma local_to_fold:
  assumes "\<And>e. local_to n (h e)"
  shows "local_to n (fold h evs)"
proof (induction evs)
  case Nil
  show ?case by (simp add: local_to_def keeps_def)
next
  case (Cons e evs)
  have he: "local_to n (h e)" by (rule assms)
  have "keeps n (fold h evs \<circ> h e)"
    unfolding keeps_def
  proof (intro allI impI conjI)
    fix s :: state assume ns: "n \<le> free s"
    have 1: "free s \<le> free (h e s)" using he ns by (rule local_to_free)
    then have 2: "n \<le> free (h e s)" using ns by simp
    have 3: "free (h e s) \<le> free (fold h evs (h e s))" using Cons.IH 2 by (rule local_to_free)
    show "free s \<le> free ((fold h evs \<circ> h e) s)" using 1 3 by simp
    fix a assume a: "n \<le> a \<and> a < free s"
    then have a2: "a < free (h e s)" using 1 by simp
    show "flags ((fold h evs \<circ> h e) s) a = flags s a"
      using local_to_flags [OF Cons.IH, of a "h e s"] local_to_flags [OF he, of a s] a a2 by simp
    show "counters ((fold h evs \<circ> h e) s) a = counters s a"
      using local_to_counters [OF Cons.IH, of a "h e s"] local_to_counters [OF he, of a s] a a2
      by simp
  qed
  moreover have "sim n ((fold h evs \<circ> h e) s) ((fold h evs \<circ> h e) t)" if "sim n s t" for s t
    using that he Cons.IH by (simp add: local_to_sim)
  ultimately show ?case by (simp add: local_to_def o_def)
qed

section \<open>Observables that behave as a sequence of calls\<close>

lemma behaves_asD:
  "behaves_as obs evs \<Longrightarrow> (\<And>v. local_to (free s) (nextFn v))
   \<Longrightarrow> (\<And>e. local_to (free s) (errorFn e)) \<Longrightarrow> local_to (free s) completeFn
   \<Longrightarrow> sim (free s) (subscribe obs nextFn errorFn completeFn s)
         (fold (emit nextFn errorFn completeFn) evs s)"
  by (simp add: behaves_as_def)

lemma behaves_as_producer: "behaves_as (producer evs) evs"
  unfolding behaves_as_def
proof (intro allI impI)
  fix nextFn errorFn :: "jsval \<Rightarrow> callback" and completeFn :: callback and s :: state
  assume h: "(\<forall>v. local_to (free s) (nextFn v)) \<and> (\<forall>e. local_to (free s) (errorFn e))
    \<and> local_to (free s) completeFn"
  then have "local_to (free s) (fold (emit nextFn errorFn completeFn) evs)"
    by (intro local_to_fold local_to_emit) simp_all
  then have "free s \<le> free (fold (emit nextFn errorFn completeFn) evs s)"
    by (rule local_to_free) simp
  then show "sim (free s) (subscribe (producer evs) nextFn errorFn completeFn s)
     (fold (emit nextFn errorFn completeFn) evs s)"
    by (simp add: producer_def sim_refl)
qed

lemma of_obs_producer: "of_obs vs = producer (map Next vs @ [Complete])"
proof -
  have "fold (emit nextFn errorFn completeFn) (map Next vs) s = fold nextFn vs s"
    for nextFn errorFn :: "jsval \<Rightarrow> callback" and completeFn :: callback and s :: state
    by (induction vs arbitrary: s) simp_all
  then show ?thesis
    by (simp add: of_obs_def producer_def)
qed

lemma behaves_as_of: "behaves_as (of_obs vs) (map Next vs @ [Complete])"
  by (simp add: of_obs_producer behaves_as_producer)

section \<open>The calls an operator hands on\<close>

lemma next_values_append: "next_values (xs @ ys) = next_values xs @ next_values ys"
  by (induction xs rule: next_values.induct) simp_all

lemma forwarded_Nil [simp]: "forwarded keep [] = []"
  by (simp add: forwarded_def)

lemma forwarded_snoc:
  "forwarded keep (evs @ [e]) = forwarded keep evs @ (if keep (evs @ [e]) then [e] else [])"
proof -
  define F where "F = (\<lambda>k. if keep (take (Suc k) (evs @ [e])) then [(evs @ [e]) ! k] else [])"
  define G where "G = (\<lambda>k. if keep (take (Suc k) evs) then [evs ! k] else [])"
  have same: "map F [0..<length evs] = map G [0..<length evs]"
    by (rule map_cong) (simp_all add: F_def G_def nth_append)
  have last: "F (length evs) = (if keep (evs @ [e]) then [e] else [])"
    by (simp add: F_def)
  have "forwarded keep (evs @ [e]) = concat (map F [0..<Suc (length evs)])"
    by (simp only: forwarded_def F_def length_append_singleton)
  also have "\<dots> = concat (map F [0..<length evs]) @ F (length evs)"
    by simp
  also have "\<dots> = forwarded keep evs @ (if keep (evs @ [e]) then [e] else [])"
    by (simp only: same last forwarded_def G_def)
  finally show ?thesis .
qed

lemma behaves_as_run: "behaves_as obs evs \<Longrightarrow> run obs s = calls s @ evs"
  using behaves_asD [of obs evs s rec_next rec_error rec_complete]
  by (simp add: run_def sim_calls fold_emit_rec)

section \<open>Callbacks built from local callbacks\<close>

lemma local_to_ident: "local_to n (\<lambda>s. s)"
  by (simp add: local_to_def keeps_def)

lemma local_to_comp:
  assumes f: "local_to n f" and g: "local_to n g"
  shows "local_to n (\<lambda>s. g (f s))"
proof -
  have "local_to n (fold (\<lambda>b. if b then f else g) [True, False])"
    by (rule local_to_fold) (simp add: f g)
  then show ?thesis by (simp add: o_def)
qed

lemma local_to_incr: "local_to (Suc a) (incr a)"
  by (simp add: local_to_def keeps_def sim_def incr_def)

lemma local_to_set_flag: "local_to (Suc a) (set_flag a b)"
  by (simp add: local_to_def keeps_def sim_def set_flag_def)

lemma local_to_if_counter:
  assumes f: "local_to n f" and g: "local_to n g" and a: "a < n"
  shows "local_to n (\<lambda>s. if P (counters s a) then f s else g s)"
proof -
  have "keeps n (\<lambda>s. if P (counters s a) then f s else g s)"
    using f g by (simp add: local_to_def keeps_def)
  moreover have "sim n (if P (counters s a) then f s else g s)
                       (if P (counters t a) then f t else g t)" if st: "sim n s t" for s t
  proof -
    have "counters s a = counters t a" using st a by (simp add: sim_def)
    then show ?thesis using st f g by (simp add: local_to_sim)
  qed
  ultimately show ?thesis by (simp add: local_to_def)
qed

lemma local_to_if_flag:
  assumes f: "local_to n f" and g: "local_to n g" and a: "a < n"
  shows "local_to n (\<lambda>s. if flags s a then f s else g s)"
proof -
  have "keeps n (\<lambda>s. if flags s a then f s else g s)"
    using f g by (simp add: local_to_def keeps_def)
  moreover have "sim n (if flags s a then f s else g s)
                       (if flags t a then f t else g t)" if st: "sim n s t" for s t
  proof -
    have "flags s a = flags t a" using st a by (simp add: sim_def)
    then show ?thesis using st f g by (simp add: local_to_sim)
  qed
  ultimately show ?thesis by (simp add: local_to_def)
qed

lemma sim_incr: "sim a s t \<Longrightarrow> sim a (incr a s) t"
  by (simp add: sim_def incr_def)

lemma sim_set_flag: "sim a s t \<Longrightarrow> sim a (set_flag a b s) t"
  by (simp add: sim_def set_flag_def)

section \<open>The filtering operators\<close>

subsection \<open>filter\<close>

lemma local_to_filter_next:
  "local_to n (nextFn v) \<Longrightarrow> local_to n (filter_next p nextFn v)"
  by (cases "truthy (p v)") (simp_all add: filter_next_def [abs_def] local_to_ident)

lemma behaves_as_filter:
  assumes src: "behaves_as src evs"
  shows "behaves_as (filter_obs p None src) (filter (passes p) evs)"
    and "behaves_as (filter_obs p (Some src) this) (filter (passes p) evs)"
proof -
  have "sim (free s) (subscribe src (filter_next p nextFn) errorFn completeFn s)
          (fold (emit nextFn errorFn completeFn) (filter (passes p) evs) s)"
    if "\<forall>v. local_to (free s) (nextFn v)" "\<forall>e. local_to (free s) (errorFn e)"
       "local_to (free s) completeFn"
    for nextFn errorFn completeFn s
    using behaves_asD [OF src, of s "filter_next p nextFn" errorFn completeFn] that
    by (simp add: local_to_filter_next fold_filter_next)
  then show "behaves_as (filter_obs p None src) (filter (passes p) evs)"
    and "behaves_as (filter_obs p (Some src) this) (filter (passes p) evs)"
    by (simp_all add: behaves_as_def filter_obs_def)
qed

subsection \<open>Operators that keep a variable per subscription\<close>

lemma local_to_take_next:
  assumes "local_to (Suc a) (nextFn v)"
  shows "local_to (Suc a) (take_next a count nextFn v)"
proof -
  have "local_to (Suc a) (\<lambda>s. if (\<lambda>i. i \<le> count) (counters s a) then nextFn v s else s)"
    by (rule local_to_if_counter) (simp_all add: assms local_to_ident)
  with local_to_incr [of a]
  have "local_to (Suc a)
     (\<lambda>s. if counters (incr a s) a \<le> count then nextFn v (incr a s) else incr a s)"
    by (rule local_to_comp)
  then show ?thesis
    by (simp add: take_next_def [abs_def] Let_def)
qed

lemma local_to_Suc: "local_to n f \<Longrightarrow> local_to (Suc n) f"
  by (erule local_to_mono) simp

lemma take_next_simps:
  "counters (incr a s) a \<le> count \<Longrightarrow> take_next a count nextFn v s = nextFn v (incr a s)"
  "\<not> counters (incr a s) a \<le> count \<Longrightarrow> take_next a count nextFn v s = incr a s"
  by (simp_all add: take_next_def Let_def)

lemma emit_terminal_sim:
  assumes er: "\<And>e. local_to a (errorFn e)" and co: "local_to a completeFn"
    and e: "\<not> is_next e" and st: "sim a S T"
  shows "sim a (emit nxA errorFn completeFn e S) (emit nxB errorFn completeFn e T)"
  using e st er co by (cases e) (simp_all add: local_to_sim)

lemma emit_terminal_keeps:
  assumes er: "\<And>e. local_to a (errorFn e)" and co: "local_to a completeFn"
    and e: "\<not> is_next e" and a: "a < free S"
  shows "flags (emit nxA errorFn completeFn e S) a = flags S a"
    and "counters (emit nxA errorFn completeFn e S) a = counters S a"
    and "a < free (emit nxA errorFn completeFn e S)"
proof -
  have l: "local_to a (emit nxA errorFn completeFn e)"
    using e er co by (cases e) simp_all
  show "flags (emit nxA errorFn completeFn e S) a = flags S a"
    by (rule local_to_flags [OF l _ a]) simp
  show "counters (emit nxA errorFn completeFn e S) a = counters S a"
    by (rule local_to_counters [OF l _ a]) simp
  show "a < free (emit nxA errorFn completeFn e S)"
    using local_to_free [OF l, of S] a by simp
qed

lemma gate_fold:
  fixes s s0 :: state
  assumes er: "\<And>e. local_to a (errorFn e)" and co: "local_to a completeFn"
    and init: "sim a s0 s" "a < free s0" "holds [] s0"
    and keep_terminal: "\<And>h e. \<not> is_next e \<Longrightarrow> keep (h @ [e])"
    and holds_terminal: "\<And>h e S. \<not> is_next e \<Longrightarrow> a < free S \<Longrightarrow> holds h S
        \<Longrightarrow> holds (h @ [e]) (emit nxA errorFn completeFn e S)"
    and step: "\<And>h v S T. sim a S T \<Longrightarrow> a < free S \<Longrightarrow> holds h S
        \<Longrightarrow> sim a (nxA v S) (if keep (h @ [Next v]) then nextFn v T else T)
            \<and> a < free (nxA v S) \<and> holds (h @ [Next v]) (nxA v S)"
  shows "sim a (fold (emit nxA errorFn completeFn) evs s0)
               (fold (emit nextFn errorFn completeFn) (forwarded keep evs) s)
         \<and> a < free (fold (emit nxA errorFn completeFn) evs s0)
         \<and> holds evs (fold (emit nxA errorFn completeFn) evs s0)"
proof (induction evs rule: rev_induct)
  case Nil
  show ?case using init by simp
next
  case (snoc e evs)
  define S where "S = fold (emit nxA errorFn completeFn) evs s0"
  define T where "T = fold (emit nextFn errorFn completeFn) (forwarded keep evs) s"
  from snoc have st: "sim a S T" and fr: "a < free S" and iv: "holds evs S"
    by (simp_all add: S_def T_def)
  have L: "fold (emit nxA errorFn completeFn) (evs @ [e]) s0 = emit nxA errorFn completeFn e S"
    by (simp add: S_def)
  have R: "fold (emit nextFn errorFn completeFn) (forwarded keep (evs @ [e])) s
           = (if keep (evs @ [e]) then emit nextFn errorFn completeFn e T else T)"
    by (simp add: forwarded_snoc T_def)
  show ?case
    unfolding L R
  proof (cases "is_next e")
    case True
    then obtain v where e: "e = Next v" by (cases e) simp_all
    show "sim a (emit nxA errorFn completeFn e S)
            (if keep (evs @ [e]) then emit nextFn errorFn completeFn e T else T)
          \<and> a < free (emit nxA errorFn completeFn e S)
          \<and> holds (evs @ [e]) (emit nxA errorFn completeFn e S)"
      using step [OF st fr iv, of v] by (cases "keep (evs @ [Next v])") (simp_all add: e)
  next
    case False
    show "sim a (emit nxA errorFn completeFn e S)
            (if keep (evs @ [e]) then emit nextFn errorFn completeFn e T else T)
          \<and> a < free (emit nxA errorFn completeFn e S)
          \<and> holds (evs @ [e]) (emit nxA errorFn completeFn e S)"
      using emit_terminal_sim [OF er co False st, where nxA = nxA and nxB = nextFn]
        emit_terminal_keeps(3) [OF er co False fr, where nxA = nxA]
        keep_terminal [OF False, of evs] holds_terminal [OF False fr iv]
      by simp
  qed
qed

lemma take_fold:
  fixes s :: state
  assumes nx: "\<And>v. local_to a (nextFn v)" and er: "\<And>e. local_to a (errorFn e)"
    and co: "local_to a completeFn" and a: "a = free s"
  shows "sim a (fold (emit (take_next a count nextFn) errorFn completeFn) evs
                 (snd (let_counter 0 s)))
               (fold (emit nextFn errorFn completeFn) (forwarded (within_count count) evs) s)"
proof -
  define holds where "holds = (\<lambda>h (S::state). counters S a = int (length (next_values h)))"
  have "sim a (take_next a count nextFn v S)
              (if within_count count (h @ [Next v]) then nextFn v T else T)
        \<and> a < free (take_next a count nextFn v S)
        \<and> holds (h @ [Next v]) (take_next a count nextFn v S)"
    if st: "sim a S T" and fr: "a < free S" and iv: "holds h S" for h v S T
  proof -
    have st': "sim a (incr a S) T" using st by (rule sim_incr)
    have fr': "a < free (incr a S)" using fr by (simp add: incr_def)
    have cnt': "counters (incr a S) a = int (length (next_values (h @ [Next v])))"
      using iv by (simp add: holds_def incr_def next_values_append)
    have keep: "within_count count (h @ [Next v]) \<longleftrightarrow> counters (incr a S) a \<le> count"
      using cnt' by (simp add: within_count_def)
    show ?thesis
    proof (cases "counters (incr a S) a \<le> count")
      case True
      have "sim a (nextFn v (incr a S)) (nextFn v T)"
        using nx st' by (rule local_to_sim)
      moreover have "counters (nextFn v (incr a S)) a = counters (incr a S) a"
        by (rule local_to_counters [OF nx _ fr']) simp
      moreover have "free (incr a S) \<le> free (nextFn v (incr a S))"
        by (rule local_to_free [OF nx]) (use fr' in simp)
      then have "a < free (nextFn v (incr a S))"
        using fr' by simp
      ultimately show ?thesis
        using True keep cnt' by (simp add: take_next_simps holds_def)
    next
      case False
      then show ?thesis
        using st' fr' keep cnt' by (simp add: take_next_simps holds_def)
    qed
  qed
  moreover have "holds (h @ [e]) (emit nxA errorFn completeFn e S)"
    if "\<not> is_next e" "a < free S" "holds h S" for h e S nxA
    using emit_terminal_keeps(2) [OF er co that(1,2), where nxA = nxA] that
    by (cases e) (simp_all add: holds_def next_values_append)
  moreover have "within_count count (h @ [e])" if "\<not> is_next e" for h e
    using that by (cases e) (simp_all add: within_count_def)
  moreover have "sim a (snd (let_counter 0 s)) s" "a < free (snd (let_counter 0 s))"
    "holds [] (snd (let_counter 0 s))"
    using a by (simp_all add: let_counter_def sim_def holds_def)
  ultimately show ?thesis
    using gate_fold [where a = a and errorFn = errorFn and completeFn = completeFn
        and holds = holds and keep = "within_count count" and nxA = "take_next a count nextFn"
        and nextFn = nextFn and s = s and ?s0.0 = "snd (let_counter 0 s)" and evs = evs] er co
    by blast
qed

lemma behaves_as_gate:
  fixes init :: "state \<Rightarrow> state"
  assumes src: "behaves_as src evs"
    and sub: "\<And>nextFn errorFn completeFn s. subscribe obs nextFn errorFn completeFn s
        = subscribe src (wrap (free s) nextFn) errorFn completeFn (init s)"
    and fr: "\<And>s. free (init s) = Suc (free s)"
    and loc: "\<And>a nextFn v. local_to (Suc a) (nextFn v) \<Longrightarrow> local_to (Suc a) (wrap a nextFn v)"
    and fold: "\<And>a nextFn errorFn completeFn s.
        (\<And>v. local_to a (nextFn v)) \<Longrightarrow> (\<And>e. local_to a (errorFn e)) \<Longrightarrow> local_to a completeFn
        \<Longrightarrow> a = free s
        \<Longrightarrow> sim a (fold (emit (wrap a nextFn) errorFn completeFn) evs (init s))
              (fold (emit nextFn errorFn completeFn) out s)"
  shows "behaves_as obs out"
  unfolding behaves_as_def
proof (intro allI impI)
  fix nextFn errorFn :: "jsval \<Rightarrow> callback" and completeFn :: callback and s :: state
  assume h: "(\<forall>v. local_to (free s) (nextFn v)) \<and> (\<forall>e. local_to (free s) (errorFn e))
    \<and> local_to (free s) completeFn"
  define a where "a = free s"
  from h have nx: "local_to (Suc a) (wrap a nextFn v)"
    and er: "local_to (Suc a) (errorFn e)" and co: "local_to (Suc a) completeFn" for v e
    by (simp_all add: loc local_to_Suc a_def)
  have "sim (free (init s)) (subscribe src (wrap a nextFn) errorFn completeFn (init s))
          (fold (emit (wrap a nextFn) errorFn completeFn) evs (init s))"
    by (rule behaves_asD [OF src]) (simp_all only: fr a_def [symmetric] nx er co)
  then have 1: "sim a (subscribe src (wrap a nextFn) errorFn completeFn (init s))
          (fold (emit (wrap a nextFn) errorFn completeFn) evs (init s))"
    by (rule sim_mono) (simp add: fr a_def)
  have 2: "sim a (fold (emit (wrap a nextFn) errorFn completeFn) evs (init s))
          (fold (emit nextFn errorFn completeFn) out s)"
    using h by (intro fold) (simp_all add: a_def)
  show "sim (free s) (subscribe obs nextFn errorFn completeFn s)
     (fold (emit nextFn errorFn completeFn) out s)"
    using sim_trans [OF 1 2] by (simp add: sub a_def)
qed

lemma behaves_as_take:
  assumes src: "behaves_as src evs"
  shows "behaves_as (take_obs count src) (forwarded (within_count count) evs)"
proof (rule behaves_as_gate [OF src, where wrap = "\<lambda>a. take_next a count"
      and init = "\<lambda>s. snd (let_counter 0 s)"])
  show "subscribe (take_obs count src) nextFn errorFn completeFn s
        = subscribe src (take_next (free s) count nextFn) errorFn completeFn (snd (let_counter 0 s))"
    for nextFn errorFn completeFn s
    by (simp add: take_obs_def let_counter_def)
  show "free (snd (let_counter 0 s)) = Suc (free s)" for s
    by (simp add: let_counter_def)
  show "local_to (Suc a) (take_next a count nextFn v)" if "local_to (Suc a) (nextFn v)"
    for a nextFn v
    using that by (rule local_to_take_next)
  show "sim a (fold (emit (take_next a count nextFn) errorFn completeFn) evs
                 (snd (let_counter 0 s)))
          (fold (emit nextFn errorFn completeFn) (forwarded (within_count count) evs) s)"
    if "\<And>v. local_to a (nextFn v)" "\<And>e. local_to a (errorFn e)" "local_to a completeFn"
      "a = free s"
    for a nextFn errorFn completeFn s
    using that by (rule take_fold)
qed

subsection \<open>first\<close>

lemma first_next_simps:
  "flags s b \<and> accepts predicate v
     \<Longrightarrow> first_next b predicate nextFn v s = nextFn v (set_flag b False s)"
  "\<not> (flags s b \<and> accepts predicate v) \<Longrightarrow> first_next b predicate nextFn v s = s"
  by (cases predicate; simp add: first_next_def)+

lemma local_to_first_next:
  assumes nx: "local_to (Suc a) (nextFn v)"
  shows "local_to (Suc a) (first_next a predicate nextFn v)"
proof (cases "accepts predicate v")
  case True
  have "local_to (Suc a) (\<lambda>s. nextFn v (set_flag a False s))"
    using local_to_set_flag nx by (rule local_to_comp)
  then have "local_to (Suc a) (\<lambda>s. if flags s a then nextFn v (set_flag a False s) else s)"
    by (rule local_to_if_flag) (simp_all add: local_to_ident)
  moreover have "first_next a predicate nextFn v
      = (\<lambda>s. if flags s a then nextFn v (set_flag a False s) else s)"
    using True by (auto simp: first_next_simps)
  ultimately show ?thesis by simp
next
  case False
  then have "first_next a predicate nextFn v = (\<lambda>s. s)"
    by (auto simp: first_next_simps)
  then show ?thesis by (simp add: local_to_ident)
qed

lemma first_fold:
  fixes s :: state
  assumes nx: "\<And>v. local_to a (nextFn v)" and er: "\<And>e. local_to a (errorFn e)"
    and co: "local_to a completeFn" and a: "a = free s"
  shows "sim a (fold (emit (first_next a predicate nextFn) errorFn completeFn) evs
                 (snd (let_flag True s)))
               (fold (emit nextFn errorFn completeFn) (forwarded (first_accepted predicate) evs) s)"
proof -
  define holds where
    "holds = (\<lambda>h (S::state). flags S a = (\<not> list_ex (accepts predicate) (next_values h)))"
  have "sim a (first_next a predicate nextFn v S)
              (if first_accepted predicate (h @ [Next v]) then nextFn v T else T)
        \<and> a < free (first_next a predicate nextFn v S)
        \<and> holds (h @ [Next v]) (first_next a predicate nextFn v S)"
    if st: "sim a S T" and fr: "a < free S" and iv: "holds h S" for h v S T
  proof (cases "flags S a \<and> accepts predicate v")
    case True
    have st': "sim a (set_flag a False S) T" using st by (rule sim_set_flag)
    have fr': "a < free (set_flag a False S)" using fr by (simp add: set_flag_def)
    have keep: "first_accepted predicate (h @ [Next v])"
      using True iv by (simp add: first_accepted_def holds_def)
    have "sim a (nextFn v (set_flag a False S)) (nextFn v T)"
      using nx st' by (rule local_to_sim)
    moreover have "flags (nextFn v (set_flag a False S)) a = flags (set_flag a False S) a"
      by (rule local_to_flags [OF nx _ fr']) simp
    moreover have "free (set_flag a False S) \<le> free (nextFn v (set_flag a False S))"
      by (rule local_to_free [OF nx]) (use fr' in simp)
    then have "a < free (nextFn v (set_flag a False S))"
      using fr' by simp
    ultimately show ?thesis
      using True keep
      by (simp add: first_next_simps holds_def next_values_append set_flag_def)
  next
    case False
    then have "\<not> first_accepted predicate (h @ [Next v])"
      using iv by (auto simp: first_accepted_def holds_def)
    then show ?thesis
      using False st fr iv by (auto simp: first_next_simps holds_def next_values_append)
  qed
  moreover have "holds (h @ [e]) (emit nxA errorFn completeFn e S)"
    if "\<not> is_next e" "a < free S" "holds h S" for h e S nxA
    using emit_terminal_keeps(1) [OF er co that(1,2), where nxA = nxA] that
    by (cases e) (simp_all add: holds_def next_values_append)
  moreover have "first_accepted predicate (h @ [e])" if "\<not> is_next e" for h e
    using that by (cases e) (simp_all add: first_accepted_def)
  moreover have "sim a (snd (let_flag True s)) s" "a < free (snd (let_flag True s))"
    "holds [] (snd (let_flag True s))"
    using a by (simp_all add: let_flag_def sim_def holds_def)
  ultimately show ?thesis
    using gate_fold [where a = a and errorFn = errorFn and completeFn = completeFn
        and holds = holds and keep = "first_accepted predicate"
        and nxA = "first_next a predicate nextFn"
        and nextFn = nextFn and s = s and ?s0.0 = "snd (let_flag True s)" and evs = evs] er co
    by blast
qed

lemma behaves_as_first:
  assumes src: "behaves_as src evs"
  shows "behaves_as (first predicate src) (forwarded (first_accepted predicate) evs)"
proof (rule behaves_as_gate [OF src, where wrap = "\<lambda>a. first_next a predicate"
      and init = "\<lambda>s. snd (let_flag True s)"])
  show "subscribe (first predicate src) nextFn errorFn completeFn s
        = subscribe src (first_next (free s) predicate nextFn) errorFn completeFn
            (snd (let_flag True s))"
    for nextFn errorFn completeFn s
    by (simp add: first_def let_flag_def)
  show "free (snd (let_flag True s)) = Suc (free s)" for s
    by (simp add: let_flag_def)
  show "local_to (Suc a) (first_next a predicate nextFn v)" if "local_to (Suc a) (nextFn v)"
    for a nextFn v
    using that by (rule local_to_first_next)
  show "sim a (fold (emit (first_next a predicate nextFn) errorFn completeFn) evs
                 (snd (let_flag True s)))
          (fold (emit nextFn errorFn completeFn) (forwarded (first_accepted predicate) evs) s)"
    if "\<And>v. local_to a (nextFn v)" "\<And>e. local_to a (errorFn e)" "local_to a completeFn"
      "a = free s"
    for a nextFn errorFn completeFn s
    using that by (rule first_fold)
qed

subsection \<open>skip\<close>

lemma skip_next_simps:
  "flags s b \<Longrightarrow> skip_next b the_val nextFn v s = nextFn v s"
  "\<not> flags s b \<Longrightarrow> strict_eq v the_val \<Longrightarrow> skip_next b the_val nextFn v s = set_flag b True s"
  "\<not> flags s b \<Longrightarrow> \<not> strict_eq v the_val \<Longrightarrow> skip_next b the_val nextFn v s = s"
  by (simp_all add: skip_next_def)

lemma local_to_skip_next:
  assumes nx: "local_to (Suc a) (nextFn v)"
  shows "local_to (Suc a) (skip_next a the_val nextFn v)"
proof -
  have "local_to (Suc a) (\<lambda>s. if strict_eq v the_val then set_flag a True s else s)"
    by (cases "strict_eq v the_val") (simp_all add: local_to_set_flag local_to_ident)
  with nx have "local_to (Suc a)
      (\<lambda>s. if flags s a then nextFn v s
           else if strict_eq v the_val then set_flag a True s else s)"
    by (rule local_to_if_flag) simp
  then show ?thesis
    by (simp add: skip_next_def [abs_def])
qed

lemma skip_fold:
  fixes s :: state
  assumes nx: "\<And>v. local_to a (nextFn v)" and er: "\<And>e. local_to a (errorFn e)"
    and co: "local_to a completeFn" and a: "a = free s"
  shows "sim a (fold (emit (skip_next a the_val nextFn) errorFn completeFn) evs
                 (snd (let_flag False s)))
               (fold (emit nextFn errorFn completeFn) (forwarded (after_match the_val) evs) s)"
proof -
  define holds where
    "holds = (\<lambda>h (S::state). flags S a = list_ex (\<lambda>w. strict_eq w the_val) (next_values h))"
  have "sim a (skip_next a the_val nextFn v S)
              (if after_match the_val (h @ [Next v]) then nextFn v T else T)
        \<and> a < free (skip_next a the_val nextFn v S)
        \<and> holds (h @ [Next v]) (skip_next a the_val nextFn v S)"
    if st: "sim a S T" and fr: "a < free S" and iv: "holds h S" for h v S T
  proof (cases "flags S a")
    case True
    have keep: "after_match the_val (h @ [Next v])"
      using True iv by (simp add: after_match_def holds_def)
    have "sim a (nextFn v S) (nextFn v T)"
      using nx st by (rule local_to_sim)
    moreover have "flags (nextFn v S) a = flags S a"
      by (rule local_to_flags [OF nx _ fr]) simp
    moreover have "free S \<le> free (nextFn v S)"
      by (rule local_to_free [OF nx]) (use fr in simp)
    then have "a < free (nextFn v S)"
      using fr by simp
    ultimately show ?thesis
      using True keep iv by (simp add: skip_next_simps holds_def next_values_append)
  next
    case False
    then have "\<not> after_match the_val (h @ [Next v])"
      using iv by (simp add: after_match_def holds_def)
    then show ?thesis
      using False st fr iv sim_set_flag [OF st, of True]
      by (cases "strict_eq v the_val")
        (simp_all add: skip_next_simps holds_def next_values_append set_flag_def)
  qed
  moreover have "holds (h @ [e]) (emit nxA errorFn completeFn e S)"
    if "\<not> is_next e" "a < free S" "holds h S" for h e S nxA
    using emit_terminal_keeps(1) [OF er co that(1,2), where nxA = nxA] that
    by (cases e) (simp_all add: holds_def next_values_append)
  moreover have "after_match the_val (h @ [e])" if "\<not> is_next e" for h e
    using that by (cases e) (simp_all add: after_match_def)
  moreover have "sim a (snd (let_flag False s)) s" "a < free (snd (let_flag False s))"
    "holds [] (snd (let_flag False s))"
    using a by (simp_all add: let_flag_def sim_def holds_def)
  ultimately show ?thesis
    using gate_fold [where a = a and errorFn = errorFn and completeFn = completeFn
        and holds = holds and keep = "after_match the_val"
        and nxA = "skip_next a the_val nextFn"
        and nextFn = nextFn and s = s and ?s0.0 = "snd (let_flag False s)" and evs = evs] er co
    by blast
qed

lemma behaves_as_skip:
  assumes src: "behaves_as src evs"
  shows "behaves_as (skip the_val src) (forwarded (after_match the_val) evs)"
proof (rule behaves_as_gate [OF src, where wrap = "\<lambda>a. skip_next a the_val"
      and init = "\<lambda>s. snd (let_flag False s)"])
  show "subscribe (skip the_val src) nextFn errorFn completeFn s
        = subscribe src (skip_next (free s) the_val nextFn) errorFn completeFn
            (snd (let_flag False s))"
    for nextFn errorFn completeFn s
    by (simp add: skip_def let_flag_def)
  show "free (snd (let_flag False s)) = Suc (free s)" for s
    by (simp add: let_flag_def)
  show "local_to (Suc a) (skip_next a the_val nextFn v)" if "local_to (Suc a) (nextFn v)"
    for a nextFn v
    using that by (rule local_to_skip_next)
  show "sim a (fold (emit (skip_next a the_val nextFn) errorFn completeFn) evs
                 (snd (let_flag False s)))
          (fold (emit nextFn errorFn completeFn) (forwarded (after_match the_val) evs) s)"
    if "\<And>v. local_to a (nextFn v)" "\<And>e. local_to a (errorFn e)" "local_to a completeFn"
      "a = free s"
    for a nextFn errorFn completeFn s
    using that by (rule skip_fold)
qed

section \<open>What is forwarded, as lists\<close>

lemma next_values_map_Next [simp]: "next_values (map Next vs) = vs"
  by (induction vs) simp_all

lemma forwarded_terminal:
  "\<not> is_next e \<Longrightarrow> (\<And>h. keep (h @ [e])) \<Longrightarrow> forwarded keep (evs @ [e]) = forwarded keep evs @ [e]"
  by (simp add: forwarded_snoc)

lemma keep_terminal:
  "\<not> is_next e \<Longrightarrow> within_count count (h @ [e])"
  "\<not> is_next e \<Longrightarrow> after_match the_val (h @ [e])"
  "\<not> is_next e \<Longrightarrow> first_accepted predicate (h @ [e])"
  by (cases e; simp add: within_count_def after_match_def first_accepted_def)+

lemma forwarded_values:
  assumes K: "\<And>h v. keep (h @ [Next v]) = K (next_values h) v"
    and G: "\<And>xs v. G (xs @ [v]) = G xs @ (if K xs v then [v] else [])" and G0: "G [] = []"
  shows "forwarded keep (map Next vs) = map Next (G vs)"
proof (induction vs rule: rev_induct)
  case Nil
  show ?case by (simp add: G0)
next
  case (snoc v vs)
  have "keep (map Next vs @ [Next v]) = K vs v"
    by (simp add: K)
  then show ?case
    by (simp add: forwarded_snoc snoc.IH G)
qed

lemma take_snoc:
  "take (nat count) (xs @ [v])
   = take (nat count) xs @ (if int (length (xs @ [v])) \<le> count then [v] else [])"
  by auto

lemma skip_snoc:
  "drop 1 (dropWhile P (xs @ [v]))
   = drop 1 (dropWhile P xs) @ (if list_ex (\<lambda>w. \<not> P w) xs then [v] else [])"
proof (cases "list_ex (\<lambda>w. \<not> P w) xs")
  case True
  then have ne: "dropWhile P xs \<noteq> []"
    by (auto simp: list_ex_iff)
  have "dropWhile P (xs @ [v]) = dropWhile P xs @ [v]"
    using True by (auto simp: list_ex_iff dropWhile_append)
  moreover have "drop 1 (dropWhile P xs @ [v]) = drop 1 (dropWhile P xs) @ [v]"
    using ne by (cases "dropWhile P xs") simp_all
  ultimately show ?thesis
    using True by simp
next
  case False
  then have all: "\<forall>w\<in>set xs. P w"
    by (simp add: list_ex_iff)
  then have 1: "dropWhile P xs = []" by simp
  have 2: "dropWhile P (xs @ [v]) = dropWhile P [v]"
    using all by (simp add: dropWhile_append)
  have 3: "drop 1 (dropWhile P [v]) = []" by simp
  show ?thesis
    using False by (simp only: 1 2 3) simp
qed

lemma first_snoc:
  "take 1 (filter A (xs @ [v]))
   = take 1 (filter A xs) @ (if A v \<and> \<not> list_ex A xs then [v] else [])"
proof (cases "list_ex A xs")
  case True
  then have "filter A xs \<noteq> []"
    by (auto simp: list_ex_iff filter_empty_conv)
  then show ?thesis
    using True by (cases "filter A xs") simp_all
next
  case False
  then have "filter A xs = []"
    by (auto simp: list_ex_iff filter_empty_conv)
  then show ?thesis
    using False by simp
qed

lemma forwarded_take: "forwarded (within_count count) (map Next vs) = map Next (take (nat count) vs)"
proof (rule forwarded_values [where K = "\<lambda>xs v. int (length (xs @ [v])) \<le> count"
      and G = "take (nat count)"])
  show "within_count count (h @ [Next v]) = (int (length (next_values h @ [v])) \<le> count)" for h v
    by (simp add: within_count_def next_values_append)
  show "take (nat count) (xs @ [v])
        = take (nat count) xs @ (if int (length (xs @ [v])) \<le> count then [v] else [])"
    for xs :: "jsval list" and v
    by (rule take_snoc)
  show "take (nat count) ([]::jsval list) = []" by simp
qed

lemma forwarded_skip:
  "forwarded (after_match the_val) (map Next vs)
   = map Next (drop 1 (dropWhile (\<lambda>v. \<not> strict_eq v the_val) vs))"
proof (rule forwarded_values [where K = "\<lambda>xs v. list_ex (\<lambda>w. \<not> \<not> strict_eq w the_val) xs"
      and G = "\<lambda>xs. drop 1 (dropWhile (\<lambda>v. \<not> strict_eq v the_val) xs)"])
  show "after_match the_val (h @ [Next v])
        = list_ex (\<lambda>w. \<not> \<not> strict_eq w the_val) (next_values h)" for h v
    by (simp add: after_match_def)
  show "drop 1 (dropWhile (\<lambda>v. \<not> strict_eq v the_val) (xs @ [v]))
        = drop 1 (dropWhile (\<lambda>v. \<not> strict_eq v the_val) xs)
          @ (if list_ex (\<lambda>w. \<not> \<not> strict_eq w the_val) xs then [v] else [])" for xs v
    by (rule skip_snoc)
  show "drop 1 (dropWhile (\<lambda>v. \<not> strict_eq v the_val) []) = []" by simp
qed

lemma forwarded_first:
  "forwarded (first_accepted predicate) (map Next vs)
   = map Next (take 1 (filter (accepts predicate) vs))"
proof (rule forwarded_values
      [where K = "\<lambda>xs v. accepts predicate v \<and> \<not> list_ex (accepts predicate) xs"
        and G = "\<lambda>xs. take 1 (filter (accepts predicate) xs)"])
  show "first_accepted predicate (h @ [Next v])
        = (accepts predicate v \<and> \<not> list_ex (accepts predicate) (next_values h))" for h v
    by (simp add: first_accepted_def)
  show "take 1 (filter (accepts predicate) (xs @ [v]))
        = take 1 (filter (accepts predicate) xs)
          @ (if accepts predicate v \<and> \<not> list_ex (accepts predicate) xs then [v] else [])"
    for xs v
    by (rule first_snoc)
  show "take 1 (filter (accepts predicate) []) = []" by simp
qed

lemma forwarded_next_values:
  assumes K: "\<And>h v. keep (h @ [Next v]) = K (next_values h) v"
    and G: "\<And>xs v. G (xs @ [v]) = G xs @ (if K xs v then [v] else [])" and G0: "G [] = []"
  shows "next_values (forwarded keep evs) = G (next_values evs)"
proof (induction evs rule: rev_induct)
  case Nil
  show ?case by (simp add: G0)
next
  case (snoc e evs)
  show ?case
  proof (cases e)
    case (Next v)
    then show ?thesis
      by (simp add: forwarded_snoc next_values_append snoc.IH G K)
  next
    case (Error x)
    then show ?thesis
      by (simp add: forwarded_snoc next_values_append snoc.IH)
  next
    case Complete
    then show ?thesis
      by (simp add: forwarded_snoc next_values_append snoc.IH)
  qed
qed

lemma first_at_most_one:
  "next_values (forwarded (first_accepted predicate) evs)
   = take 1 (filter (accepts predicate) (next_values evs))"
proof (rule forwarded_next_values
      [where K = "\<lambda>xs v. accepts predicate v \<and> \<not> list_ex (accepts predicate) xs"
        and G = "\<lambda>xs. take 1 (filter (accepts predicate) xs)"])
  show "first_accepted predicate (h @ [Next v])
        = (accepts predicate v \<and> \<not> list_ex (accepts predicate) (next_values h))" for h v
    by (simp add: first_accepted_def)
  show "take 1 (filter (accepts predicate) (xs @ [v]))
        = take 1 (filter (accepts predicate) xs)
          @ (if accepts predicate v \<and> \<not> list_ex (accepts predicate) xs then [v] else [])"
    for xs v
    by (rule first_snoc)
  show "take 1 (filter (accepts predicate) []) = []" by simp
qed

section \<open>Subscriptions of the filtering operators\<close>

lemma run_take: "run (take_obs count (producer evs)) s = calls s @ forwarded (within_count count) evs"
  by (intro behaves_as_run behaves_as_take behaves_as_producer)

lemma run_first:
  "run (first predicate (producer evs)) s = calls s @ forwarded (first_accepted predicate) evs"
  by (intro behaves_as_run behaves_as_first behaves_as_producer)

lemma run_skip:
  "run (skip the_val (producer evs)) s = calls s @ forwarded (after_match the_val) evs"
  by (intro behaves_as_run behaves_as_skip behaves_as_producer)

lemma run_take_of:
  "run (take_obs count (of_obs vs)) s = calls s @ map Next (take (nat count) vs) @ [Complete]"
  by (simp add: run_take of_obs_producer forwarded_terminal keep_terminal forwarded_take)

lemma run_skip_of:
  "run (skip the_val (of_obs vs)) s
   = calls s @ map Next (drop 1 (dropWhile (\<lambda>v. \<not> strict_eq v the_val) vs)) @ [Complete]"
  by (simp add: run_skip of_obs_producer forwarded_terminal keep_terminal forwarded_skip)

lemma run_first_of:
  "run (first predicate (of_obs vs)) s
   = calls s @ map Next (take 1 (filter (accepts predicate) vs)) @ [Complete]"
  by (simp add: run_first of_obs_producer forwarded_terminal keep_terminal forwarded_first)

lemma built_behaves: "built obs \<Longrightarrow> \<exists>vs. behaves_as obs (map Next vs @ [Complete])"
proof (induction rule: built.induct)
  case (of_values args)
  show ?case using behaves_as_of by blast
next
  case (from_array args)
  show ?case unfolding fromArray_def using behaves_as_of by blast
next
  case (from_input fresh input obs)
  then have "\<exists>vs. obs = of_obs vs"
    by (auto simp: from_obs_def split: option.splits if_splits)
  then show ?case using behaves_as_of by blast
next
  case (filter_method src predicate)
  then obtain vs where "behaves_as src (map Next vs @ [Complete])" by blast
  from behaves_as_filter(1) [OF this, of predicate]
  have "behaves_as (filter_obs predicate None src)
          (map Next (filter (\<lambda>v. truthy (predicate v)) vs) @ [Complete])"
    by (simp add: filter_map o_def)
  then show ?case by blast
next
  case (filter_static src predicate this)
  then obtain vs where "behaves_as src (map Next vs @ [Complete])" by blast
  from behaves_as_filter(2) [OF this, of predicate]
  have "behaves_as (filter_obs predicate (Some src) this)
          (map Next (filter (\<lambda>v. truthy (predicate v)) vs) @ [Complete])"
    by (simp add: filter_map o_def)
  then show ?case by blast
next
  case (take src count)
  then obtain vs where "behaves_as src (map Next vs @ [Complete])" by blast
  from behaves_as_take [OF this, of count]
  have "behaves_as (take_obs count src) (map Next (take (nat count) vs) @ [Complete])"
    by (simp add: forwarded_terminal keep_terminal forwarded_take)
  then show ?case by blast
next
  case (first src predicate)
  then obtain vs where "behaves_as src (map Next vs @ [Complete])" by blast
  from behaves_as_first [OF this, of predicate]
  have "behaves_as (first predicate src)
          (map Next (take 1 (filter (accepts predicate) vs)) @ [Complete])"
    by (simp add: forwarded_terminal keep_terminal forwarded_first)
  then show ?case by blast
next
  case (skip src the_val)
  then obtain vs where "behaves_as src (map Next vs @ [Complete])" by blast
  from behaves_as_skip [OF this, of the_val]
  have "behaves_as (skip the_val src)
          (map Next (drop 1 (dropWhile (\<lambda>v. \<not> strict_eq v the_val) vs)) @ [Complete])"
    by (simp add: forwarded_terminal keep_terminal forwarded_skip)
  then show ?case by blast
qed

section \<open>The loop of concat\<close>

lemma concat_loop_False [simp]: "concat_loop False evss = []"
  by (induction evss) simp_all













section \<open>The claims\<close>

text \<open>
  Claim C1. For the synchronous chain \<open>of(10).concat(of(20))\<close>, a subscription yields
  \<open>next(10)\<close>, then \<open>next(20)\<close>, and \<open>completeFn\<close> is called exactly once, after the
  emission of \<open>20\<close>: the subscriber records exactly these three calls, in this order.
\<close>

theorem concat_of_10_of_20:
  "calls (subscribe (concat_obs (Some (of_obs [JNum 10])) [of_obs [JNum 20]])
            rec_next rec_error rec_complete s)
   = calls s @ [Next (JNum 10), Next (JNum 20), Complete]"
  by (simp add: concat_obs_def of_obs_def concat_callback_def let_flag_def set_flag_def
      rec_next_def rec_complete_def)

text \<open>
  Claim C2. For every upstream sequence of calls and every threshold, \<open>source.skip(the)\<close>
  forwards exactly the values that come after an earlier value strictly equal to the
  threshold: every value up to and including the first match is suppressed, nothing is
  forwarded when no value matches, and \<open>error\<close> and \<open>complete\<close> pass through where they
  occur. For an upstream of values \<open>vs\<close> followed by \<open>complete\<close> or by an error, the
  values forwarded are those after the first match in \<open>vs\<close>, followed by the same
  \<open>complete\<close> or error; \<open>of(1,2,3,4,5).skip(3)\<close> emits \<open>4, 5\<close> and completes.
\<close>

theorem skip_forwards_after_first_match:
  "run (skip the_val (producer evs)) s = calls s @ forwarded (after_match the_val) evs
   \<and> run (skip the_val (producer (map Next vs @ [Complete]))) s
       = calls s @ map Next (drop 1 (dropWhile (\<lambda>v. \<not> strict_eq v the_val) vs)) @ [Complete]
   \<and> run (skip the_val (producer (map Next vs @ [Error err]))) s
       = calls s @ map Next (drop 1 (dropWhile (\<lambda>v. \<not> strict_eq v the_val) vs)) @ [Error err]
   \<and> run (skip (JNum 3) (of_obs [JNum 1, JNum 2, JNum 3, JNum 4, JNum 5])) s
       = calls s @ [Next (JNum 4), Next (JNum 5), Complete]"
  using run_skip_of [of "JNum 3" "[JNum 1, JNum 2, JNum 3, JNum 4, JNum 5]" s]
  by (simp add: run_skip forwarded_terminal keep_terminal forwarded_skip)

text \<open>
  Claim C3. For every upstream sequence of calls and every count, \<open>source.take(count)\<close>
  forwards a value exactly when its 1-based position among the values is at most
  \<open>count\<close>, so the first \<open>count\<close> values and no later one; it does not complete by
  itself when the count is reached (an upstream that never completes gives a downstream
  that never completes), and \<open>complete\<close> reaches the subscriber exactly where the
  upstream calls it. \<open>of(1,2,3,4,5).take(2)\<close> emits \<open>1, 2\<close> only, then completes.
\<close>

theorem take_forwards_first_count:
  "run (take_obs count (producer evs)) s = calls s @ forwarded (within_count count) evs
   \<and> run (take_obs count (producer (map Next vs))) s = calls s @ map Next (take (nat count) vs)
   \<and> run (take_obs count (producer (map Next vs @ [Complete]))) s
       = calls s @ map Next (take (nat count) vs) @ [Complete]
   \<and> run (take_obs 2 (of_obs [JNum 1, JNum 2, JNum 3, JNum 4, JNum 5])) s
       = calls s @ [Next (JNum 1), Next (JNum 2), Complete]"
  using run_take_of [of 2 "[JNum 1, JNum 2, JNum 3, JNum 4, JNum 5]" s]
  by (simp add: run_take forwarded_terminal keep_terminal forwarded_take)

text \<open>
  Claim C4. For every argument list \<open>vs\<close>, subscribing to \<open>of(...vs)\<close> calls \<open>nextFn\<close>
  once per value, in argument order, then \<open>completeFn\<close> once, and never \<open>errorFn\<close>:
  whatever the callbacks are, the subscription is the calls \<open>nextFn(v)\<close> for the values
  in order followed by \<open>completeFn()\<close>, and a recording subscriber records exactly
  these. \<open>fromArray(arr)\<close> is \<open>of(...arr)\<close>, and \<open>fromArray()\<close> is the empty sequence,
  which only completes.
\<close>

theorem of_emits_then_completes:
  "subscribe (of_obs vs) nextFn errorFn completeFn s = completeFn (fold nextFn vs s)
   \<and> calls (subscribe (of_obs vs) rec_next rec_error rec_complete s)
       = calls s @ map Next vs @ [Complete]
   \<and> fromArray (Some vs) = of_obs vs
   \<and> fromArray None = of_obs []
   \<and> calls (subscribe (fromArray None) rec_next rec_error rec_complete s)
       = calls s @ [Complete]"
  by (simp add: of_obs_def fromArray_def fold_rec_next)

text \<open>
  Claim C5. \<open>fromPromise(p)\<close>: when \<open>p\<close> is fulfilled with \<open>v\<close> the observer receives
  \<open>next(v)\<close>, then \<open>complete()\<close>, and \<open>errorFn\<close> is never called; when \<open>p\<close> is rejected
  no callback is ever invoked, neither \<open>errorFn\<close> nor \<open>completeFn\<close> nor \<open>nextFn\<close>: the
  subscription leaves the state as it was.
\<close>

theorem fromPromise_settled:
  "subscribe (fromPromise (Fulfilled v)) nextFn errorFn completeFn s = completeFn (nextFn v s)
   \<and> calls (subscribe (fromPromise (Fulfilled v)) rec_next rec_error rec_complete s)
       = calls s @ [Next v, Complete]
   \<and> subscribe (fromPromise (Rejected e)) nextFn errorFn completeFn s = s
   \<and> calls (subscribe (fromPromise (Rejected e)) rec_next rec_error rec_complete s) = calls s"
  by (simp add: fromPromise_def then_promise_def rec_next_def rec_complete_def)

text \<open>
  Claim C6. \<open>from(input)\<close> dispatches on the shape of \<open>input\<close>: a thenable gives
  \<open>fromPromise(input)\<close>; an array gives \<open>of(...input)\<close>; a non-empty string gives \<open>of\<close>
  over its characters in order; a \<open>Map\<close> gives \<open>of\<close> over its entries, one two-element
  array \<open>[key, value]\<close> per entry in iteration order; every other input (\<open>undefined\<close>,
  \<open>null\<close>, a boolean, a number, \<open>NaN\<close>, the empty string, a plain object, a function)
  gives \<open>undefined\<close>.
\<close>

theorem from_dispatch:
  "from_obs fresh (JObj r (Thenable p)) = Some (fromPromise p)
   \<and> from_obs fresh (JObj r (Array xs)) = Some (of_obs xs)
   \<and> from_obs fresh (JStr (c # cs)) = Some (of_obs (map (\<lambda>c. JStr [c]) (c # cs)))
   \<and> from_obs fresh (JObj r (MapOf kvs))
       = Some (of_obs (map (\<lambda>(i, (k, v)). JObj i (Array [k, v])) (enumerate fresh kvs)))
   \<and> from_obs fresh JUndefined = None
   \<and> from_obs fresh JNull = None
   \<and> from_obs fresh (JBool b) = None
   \<and> from_obs fresh (JNum n) = None
   \<and> from_obs fresh JNaN = None
   \<and> from_obs fresh (JStr []) = None
   \<and> from_obs fresh (JObj r Plain) = None
   \<and> from_obs fresh (JObj r Function) = None"
  by (simp add: from_obs_def split_chars_def entries_eq)



text \<open>
  Claim C8, as stated, asks for exactly one forwarded value for every upstream sequence.
  An upstream with no value has none to forward: \<open>of().first()\<close> only completes.
\<close>

theorem first_of_nothing_counterexample:
  "run (first PredUndefined (of_obs [])) start = [Complete]"
  by (simp add: run_def first_def of_obs_def let_flag_def start_def rec_complete_def)

text \<open>
  Claim C8, amended. For every upstream sequence of calls, \<open>source.first(predicate)\<close>
  forwards at most one value: the first value for which \<open>predicate\<close> returns a truthy
  result, or the very first value when no predicate is given, and none when the
  upstream has no such value. Every later \<open>next\<close> is suppressed, and \<open>error\<close> and
  \<open>complete\<close> still come from the upstream, where it calls them.
  \<open>of(1,2,3,4,5).first()\<close> emits only \<open>1\<close> and \<open>of(1,2,3,4,5).first(x => x === 5)\<close>
  emits only \<open>5\<close>.
\<close>

theorem first_forwards_first_accepted:
  "run (first predicate (producer evs)) s = calls s @ forwarded (first_accepted predicate) evs
   \<and> next_values (forwarded (first_accepted predicate) evs)
       = take 1 (filter (accepts predicate) (next_values evs))
   \<and> run (first predicate (producer (map Next vs @ [Complete]))) s
       = calls s @ map Next (take 1 (filter (accepts predicate) vs)) @ [Complete]
   \<and> run (first PredUndefined (of_obs [JNum 1, JNum 2, JNum 3, JNum 4, JNum 5])) s
       = calls s @ [Next (JNum 1), Complete]
   \<and> run (first (PredFunction (\<lambda>num. JBool (strict_eq num (JNum 5))))
             (of_obs [JNum 1, JNum 2, JNum 3, JNum 4, JNum 5])) s
       = calls s @ [Next (JNum 5), Complete]"
  using run_first_of [of PredUndefined "[JNum 1, JNum 2, JNum 3, JNum 4, JNum 5]" s]
    run_first_of [of "PredFunction (\<lambda>num. JBool (strict_eq num (JNum 5)))"
      "[JNum 1, JNum 2, JNum 3, JNum 4, JNum 5]" s]
  by (simp add: run_first forwarded_terminal keep_terminal forwarded_first first_at_most_one)

text \<open>
  Claim C9. For every observable built from the synchronous creation operators and the
  filtering operators there is one sequence of values such that every subscription,
  from whatever state, delivers these values followed by \<open>complete\<close>; in particular a
  second subscription, made in the state the first one left, delivers the same sequence
  again: each \<open>subscribe\<close> declares its own counters and flags, and what the first
  subscription left in its variables is not seen by the second.
\<close>

theorem resubscribing_replays:
  assumes "built obs"
  shows "\<exists>vs. \<forall>s. run obs s = calls s @ map Next vs @ [Complete]
           \<and> run obs (subscribe obs rec_next rec_error rec_complete s)
               = calls s @ (map Next vs @ [Complete]) @ (map Next vs @ [Complete])"
proof -
  from built_behaves [OF assms] obtain vs where b: "behaves_as obs (map Next vs @ [Complete])"
    by blast
  have 1: "run obs s = calls s @ map Next vs @ [Complete]" for s
    using b by (rule behaves_as_run)
  have "run obs (subscribe obs rec_next rec_error rec_complete s)
        = calls s @ (map Next vs @ [Complete]) @ (map Next vs @ [Complete])" for s
    using 1 [of "subscribe obs rec_next rec_error rec_complete s"] 1 [of s]
    by (simp add: run_def)
  with 1 show ?thesis by blast
qed

text \<open>The theorem at \<open>of(1,2,3,4).filter(v => v !== 2).take(2)\<close>, subscribed twice.\<close>

theorem resubscribing_replays_witness:
  "built (take_obs 2 (filter_obs (\<lambda>v. JBool (\<not> strict_eq v (JNum 2))) None
            (of_obs [JNum 1, JNum 2, JNum 3, JNum 4])))
   \<and> run (take_obs 2 (filter_obs (\<lambda>v. JBool (\<not> strict_eq v (JNum 2))) None
            (of_obs [JNum 1, JNum 2, JNum 3, JNum 4])))
        (subscribe (take_obs 2 (filter_obs (\<lambda>v. JBool (\<not> strict_eq v (JNum 2))) None
            (of_obs [JNum 1, JNum 2, JNum 3, JNum 4]))) rec_next rec_error rec_complete start)
      = [Next (JNum 1), Next (JNum 3), Complete, Next (JNum 1), Next (JNum 3), Complete]"
proof -
  define obs where "obs = take_obs 2 (filter_obs (\<lambda>v. JBool (\<not> strict_eq v (JNum 2))) None
            (of_obs [JNum 1, JNum 2, JNum 3, JNum 4]))"
  have b: "built obs"
    unfolding obs_def by (intro built.intros)
  from resubscribing_replays [OF b] obtain vs where
    vs: "\<And>s. run obs s = calls s @ map Next vs @ [Complete]"
      "\<And>s. run obs (subscribe obs rec_next rec_error rec_complete s)
               = calls s @ (map Next vs @ [Complete]) @ (map Next vs @ [Complete])"
    by blast
  have "run obs start = [Next (JNum 1), Next (JNum 3), Complete]"
    by (simp add: obs_def run_def take_obs_def filter_obs_def of_obs_def let_counter_def
        take_next_def filter_next_def incr_def start_def Let_def rec_next_def rec_complete_def)
  with vs(1) [of start] have "map Next vs @ [Complete] = [Next (JNum 1), Next (JNum 3), Complete]"
    by (simp add: start_def)
  with vs(2) [of start] b show ?thesis
    by (simp add: obs_def start_def)
qed



end
